theory Spec2Isabelle
  imports Main
begin

section \<open>The state register of \<open>bmalloc::AsyncTask\<close>\<close>

text \<open>
  \<^verbatim>\<open>enum State { Exited, ExitRequested, Sleeping, Running, RunRequested };\<close>
  The register \<open>m_state\<close> is a \<open>std::atomic<State>\<close>; every access in the class uses the
  default (sequentially consistent) memory order, so each access is one atomic step of an
  interleaving semantics.
\<close>

datatype State = Exited | ExitRequested | Sleeping | Running | RunRequested

text \<open>
  \<open>m_state.exchange(desired)\<close>: the first component is the returned previous value, the
  second the new content of the register.
\<close>

definition exchange :: "State \<Rightarrow> State \<Rightarrow> State \<times> State" where
  "exchange cur desired = (cur, desired)"

text \<open>
  \<open>m_state.compare_exchange_weak(expected, desired)\<close>: the weak form may fail although the
  register holds \<open>expected\<close>; \<open>spurious\<close> is that choice of the hardware. The first component
  is the returned flag, the second the new content of the register. (On failure C++ also
  writes the current value into \<open>expectedState\<close>; the loop overwrites that local before
  every attempt, so it is not kept.)
\<close>

definition compare_exchange_weak :: "bool \<Rightarrow> State \<Rightarrow> State \<Rightarrow> State \<Rightarrow> bool \<times> State" where
  "compare_exchange_weak spurious cur expected desired =
     (if cur = expected \<and> \<not> spurious then (True, desired) else (False, cur))"

section \<open>Threads, program points and the observable trace\<close>

text \<open>
  Program points of a worker thread inside \<open>threadRunLoop\<close>:
  \<open>W_cas1\<close> before the attempt RunRequested to Running, \<open>W_call\<close> inside
  \<open>(m_object.*m_function)()\<close>, \<open>W_cas2\<close> before the attempt Running to Sleeping, \<open>W_wait\<close>
  inside \<open>m_condition.wait_for\<close>, \<open>W_cas3\<close> before the attempt Sleeping to Exited,
  \<open>W_cas4\<close> before the attempt ExitRequested to Exited, \<open>W_returned\<close> after \<open>return\<close>.
\<close>

datatype wpc = W_cas1 | W_call | W_cas2 | W_wait | W_cas3 | W_cas4 | W_returned

text \<open>
  Program points of a thread that calls the public operations. \<open>C_idle\<close>: outside any
  call. In \<open>run()\<close>: \<open>R_load\<close> before the test \<open>m_state == RunRequested\<close>; in
  \<open>runSlowCase()\<close>: \<open>R_xchg\<close> before the exchange, \<open>R_notify\<close> before
  \<open>m_condition.notify_all()\<close>, \<open>R_assert old\<close> before \<open>BASSERT(oldState == Exited)\<close> with
  the captured \<open>oldState\<close>, \<open>R_detach\<close> before \<open>if (m_thread.joinable()) m_thread.detach()\<close>,
  \<open>R_spawn\<close> before \<open>m_thread = std::thread(...)\<close>. In \<open>stop()\<close>: \<open>S_xchg\<close> before the
  exchange, \<open>S_notify\<close> before \<open>notify_all\<close>, \<open>S_join\<close> before
  \<open>if (m_thread.joinable()) m_thread.join()\<close>.
\<close>

datatype cpc = C_idle | R_load | R_xchg | R_notify | R_assert State | R_detach | R_spawn
  | S_xchg | S_notify | S_join

text \<open>
  The operations a thread may call on the instance. The destructor \<open>~AsyncTask\<close> calls
  \<open>stop()\<close> and does nothing else, so destroying the instance is a last \<open>Stop\<close>.
\<close>

datatype api = Run | Stop

datatype writer = ByWorker nat | ByRun nat | ByStop nat

text \<open>What an execution does, newest first: the ghost trace of a configuration.\<close>

datatype action =
    Store writer State
  | CasFailed nat State
  | Invoke nat
  | Return nat
  | Notify nat
  | Detach nat
  | Spawn nat nat
  | Join nat nat
  | AssertFailed nat
  | Terminate nat

text \<open>
  A configuration: the fields \<open>m_state\<close> and \<open>m_thread\<close> of the instance (\<open>m_thread\<close> is
  \<open>Some t\<close> when the handle is joinable and refers to worker \<open>t\<close>), the program point of
  every worker thread ever started by the instance (thread \<open>t\<close> is entry \<open>t\<close>), the program
  point of every calling thread, whether the process has aborted, and the trace.
  \<open>m_object\<close> and \<open>m_function\<close> are opaque: an invocation is the stay of a worker at
  \<open>W_call\<close>. \<open>m_conditionMutex\<close> and \<open>m_condition\<close> carry no value; a notification is a
  trace entry, and the timed wait may end at any moment (see \<open>threadRunLoop\<close>).
\<close>

record config =
  m_state :: State
  m_thread :: "nat option"
  workers :: "wpc list"
  controllers :: "cpc list"
  crashed :: bool
  trace :: "action list"

text \<open>The constructor, for \<open>n\<close> calling threads that share the instance.\<close>

definition AsyncTask :: "nat \<Rightarrow> config" where
  "AsyncTask n = \<lparr> m_state = Exited, m_thread = None, workers = [],
     controllers = replicate n C_idle, crashed = False, trace = [] \<rparr>"

fun is_Invoke :: "action \<Rightarrow> bool" where
  "is_Invoke (Invoke t) = True"
| "is_Invoke a = False"

fun is_Join :: "action \<Rightarrow> bool" where
  "is_Join (Join i t) = True"
| "is_Join a = False"

definition invocations :: "config \<Rightarrow> nat" where
  "invocations c = length (filter is_Invoke (trace c))"

definition joins :: "config \<Rightarrow> nat" where
  "joins c = length (filter is_Join (trace c))"


definition set_wpc :: "nat \<Rightarrow> wpc \<Rightarrow> config \<Rightarrow> config" where
  "set_wpc t p c = c\<lparr>workers := (workers c)[t := p]\<rparr>"

definition set_cpc :: "nat \<Rightarrow> cpc \<Rightarrow> config \<Rightarrow> config" where
  "set_cpc i p c = c\<lparr>controllers := (controllers c)[i := p]\<rparr>"

definition emit :: "action \<Rightarrow> config \<Rightarrow> config" where
  "emit a c = c\<lparr>trace := a # trace c\<rparr>"

section \<open>The worker loop\<close>

text \<open>
  One atomic step of worker \<open>t\<close> at program point \<open>p\<close> of \<open>threadRunLoop\<close>. The scheduler's
  choice says how the step goes where the code leaves it open: \<open>Spurious\<close> makes a weak
  compare-and-swap fail spuriously, \<open>Timeout\<close> ends the timed wait after \<open>exitDelay\<close>;
  \<open>Proceed\<close> is the step without either. \<open>wait_for\<close> with a predicate returns when the
  predicate \<open>m_state != Sleeping\<close> holds or the delay has passed; real time is not
  modelled, so the timeout may come at any moment. \<open>None\<close>: the step is not enabled (the
  thread is blocked or has returned).
\<close>

datatype wchoice = Proceed | Spurious | Timeout

fun threadRunLoop :: "nat \<Rightarrow> wchoice \<Rightarrow> wpc \<Rightarrow> config \<Rightarrow> config option" where
  "threadRunLoop t Timeout W_cas1 c = None"
| "threadRunLoop t ch W_cas1 c =
     (case compare_exchange_weak (ch = Spurious) (m_state c) RunRequested Running of
        (True, s) \<Rightarrow> Some (emit (Invoke t) (emit (Store (ByWorker t) Running)
                       (set_wpc t W_call (c\<lparr>m_state := s\<rparr>))))
      | (False, s) \<Rightarrow> Some (emit (CasFailed t RunRequested) (set_wpc t W_cas2 (c\<lparr>m_state := s\<rparr>))))"
| "threadRunLoop t Proceed W_call c = Some (emit (Return t) (set_wpc t W_cas2 c))"
| "threadRunLoop t ch W_call c = None"
| "threadRunLoop t Timeout W_cas2 c = None"
| "threadRunLoop t ch W_cas2 c =
     (case compare_exchange_weak (ch = Spurious) (m_state c) Running Sleeping of
        (True, s) \<Rightarrow> Some (emit (Store (ByWorker t) Sleeping) (set_wpc t W_wait (c\<lparr>m_state := s\<rparr>)))
      | (False, s) \<Rightarrow> Some (emit (CasFailed t Running) (set_wpc t W_cas3 (c\<lparr>m_state := s\<rparr>))))"
| "threadRunLoop t Spurious W_wait c = None"
| "threadRunLoop t ch W_wait c =
     (if ch = Timeout \<or> m_state c \<noteq> Sleeping then Some (set_wpc t W_cas3 c) else None)"
| "threadRunLoop t Timeout W_cas3 c = None"
| "threadRunLoop t ch W_cas3 c =
     (case compare_exchange_weak (ch = Spurious) (m_state c) Sleeping Exited of
        (True, s) \<Rightarrow> Some (emit (Store (ByWorker t) Exited) (set_wpc t W_returned (c\<lparr>m_state := s\<rparr>)))
      | (False, s) \<Rightarrow> Some (emit (CasFailed t Sleeping) (set_wpc t W_cas4 (c\<lparr>m_state := s\<rparr>))))"
| "threadRunLoop t Timeout W_cas4 c = None"
| "threadRunLoop t ch W_cas4 c =
     (case compare_exchange_weak (ch = Spurious) (m_state c) ExitRequested Exited of
        (True, s) \<Rightarrow> Some (emit (Store (ByWorker t) Exited) (set_wpc t W_returned (c\<lparr>m_state := s\<rparr>)))
      | (False, s) \<Rightarrow> Some (emit (CasFailed t ExitRequested) (set_wpc t W_cas1 (c\<lparr>m_state := s\<rparr>))))"
| "threadRunLoop t ch W_returned c = None"

section \<open>The public operations\<close>

text \<open>
  \<open>run()\<close> and \<open>runSlowCase()\<close>, one atomic step of calling thread \<open>i\<close> at program point
  \<open>p\<close>. \<open>BASSERT\<close> comes from \<open>BAssert.h\<close>, which is not among the sources: \<open>assertions\<close>
  says whether the build checks it (a failed check aborts the process) or compiles it
  away. Assigning to a joinable \<open>std::thread\<close> calls \<open>std::terminate\<close>. Thread creation is
  taken to succeed.
\<close>

fun run :: "bool \<Rightarrow> nat \<Rightarrow> cpc \<Rightarrow> config \<Rightarrow> config option" where
  "run assertions i R_load c =
     Some (if m_state c = RunRequested then set_cpc i C_idle c else set_cpc i R_xchg c)"
| "run assertions i R_xchg c =
     (case exchange (m_state c) RunRequested of (oldState, s) \<Rightarrow>
        Some (emit (Store (ByRun i) RunRequested)
          (set_cpc i (if oldState = RunRequested \<or> oldState = Running then C_idle
                      else if oldState = Sleeping then R_notify
                      else R_assert oldState) (c\<lparr>m_state := s\<rparr>))))"
| "run assertions i R_notify c = Some (emit (Notify i) (set_cpc i C_idle c))"
| "run assertions i (R_assert oldState) c =
     Some (if assertions \<and> oldState \<noteq> Exited then emit (AssertFailed i) (c\<lparr>crashed := True\<rparr>)
           else set_cpc i R_detach c)"
| "run assertions i R_detach c =
     Some (if m_thread c \<noteq> None then emit (Detach i) (set_cpc i R_spawn (c\<lparr>m_thread := None\<rparr>))
           else set_cpc i R_spawn c)"
| "run assertions i R_spawn c =
     Some (if m_thread c \<noteq> None then emit (Terminate i) (c\<lparr>crashed := True\<rparr>)
           else emit (Spawn i (length (workers c)))
                  (set_cpc i C_idle (c\<lparr>m_thread := Some (length (workers c)),
                                        workers := workers c @ [W_cas1]\<rparr>)))"
| "run assertions i p c = None"

text \<open>
  \<open>stop()\<close>. \<open>join\<close> blocks until the worker behind the handle has returned; afterwards the
  handle is no longer joinable.
\<close>

fun stop :: "nat \<Rightarrow> cpc \<Rightarrow> config \<Rightarrow> config option" where
  "stop i S_xchg c =
     (case exchange (m_state c) ExitRequested of (oldState, s) \<Rightarrow>
        Some (emit (Store (ByStop i) ExitRequested)
          (set_cpc i (if oldState = Sleeping then S_notify else S_join) (c\<lparr>m_state := s\<rparr>))))"
| "stop i S_notify c = Some (emit (Notify i) (set_cpc i S_join c))"
| "stop i S_join c =
     (case m_thread c of
        None \<Rightarrow> Some (set_cpc i C_idle c)
      | Some t \<Rightarrow>
          (if t < length (workers c) \<and> workers c ! t = W_returned
           then Some (emit (Join i t) (set_cpc i C_idle (c\<lparr>m_thread := None\<rparr>)))
           else None))"
| "stop i p c = None"

section \<open>Interleavings\<close>

text \<open>
  An event is one atomic step of one thread: calling thread \<open>i\<close> enters \<open>run()\<close> or
  \<open>stop()\<close>, calling thread \<open>i\<close> takes the next step of the call it is in, or worker \<open>t\<close>
  takes its next step. After an abort nothing happens any more.
\<close>

datatype event = Call nat api | Ctl nat | Wrk nat wchoice

definition in_stop :: "cpc \<Rightarrow> bool" where
  "in_stop p = (p = S_xchg \<or> p = S_notify \<or> p = S_join)"

definition step :: "bool \<Rightarrow> event \<Rightarrow> config \<Rightarrow> config option" where
  "step assertions e c =
     (if crashed c then None
      else case e of
        Call i a \<Rightarrow>
          (if i < length (controllers c) \<and> controllers c ! i = C_idle
           then Some (set_cpc i (case a of Run \<Rightarrow> R_load | Stop \<Rightarrow> S_xchg) c)
           else None)
      | Ctl i \<Rightarrow>
          (if i < length (controllers c)
           then (if in_stop (controllers c ! i) then stop i (controllers c ! i) c
                 else run assertions i (controllers c ! i) c)
           else None)
      | Wrk t ch \<Rightarrow>
          (if t < length (workers c) then threadRunLoop t ch (workers c ! t) c else None))"

fun run_events :: "bool \<Rightarrow> event list \<Rightarrow> config \<Rightarrow> config option" where
  "run_events assertions [] c = Some c"
| "run_events assertions (e # es) c =
     (case step assertions e c of None \<Rightarrow> None | Some c' \<Rightarrow> run_events assertions es c')"

section \<open>Predicates of the statements\<close>

text \<open>
  A calling thread is about to start a worker: it is in \<open>runSlowCase\<close> past the exchange, on
  the path to \<open>m_thread = std::thread(...)\<close>. With checked assertions only a captured
  \<open>Exited\<close> gets past \<open>BASSERT\<close>.
\<close>

definition spawning :: "bool \<Rightarrow> cpc \<Rightarrow> bool" where
  "spawning assertions p =
     (case p of R_assert old \<Rightarrow> \<not> assertions \<or> old = Exited | R_detach \<Rightarrow> True | R_spawn \<Rightarrow> True
      | _ \<Rightarrow> False)"

text \<open>
  No worker thread is alive: every worker started so far has returned from
  \<open>threadRunLoop\<close>.
\<close>

definition all_returned :: "config \<Rightarrow> bool" where
  "all_returned c = (\<forall>t<length (workers c). workers c ! t = W_returned)"

definition before_xchg :: "cpc \<Rightarrow> bool" where
  "before_xchg p = (p = C_idle \<or> p = R_load \<or> p = R_xchg)"

text \<open>
  The invariant behind mutual exclusion. A worker that has not returned is the one behind
  \<open>m_thread\<close>; a caller that is about to start a worker is the only such caller, no worker
  is alive and the register is not Exited; Exited means no worker is alive. Without
  checked assertions there is one calling thread, and then: ExitRequested outside a call
  and before the exchange of \<open>run()\<close> means no worker is alive, the register is not
  ExitRequested before a notification of \<open>run()\<close>, and it is RunRequested on the way to
  starting a worker.
\<close>

definition task_inv :: "bool \<Rightarrow> config \<Rightarrow> bool" where
  "task_inv assertions c \<longleftrightarrow>
     (\<forall>t<length (workers c). workers c ! t \<noteq> W_returned \<longrightarrow> m_thread c = Some t) \<and>
     (\<forall>i<length (controllers c). spawning assertions (controllers c ! i) \<longrightarrow>
        all_returned c \<and> m_state c \<noteq> Exited \<and>
        (\<forall>j<length (controllers c). spawning assertions (controllers c ! j) \<longrightarrow> j = i)) \<and>
     (m_state c = Exited \<longrightarrow> all_returned c) \<and>
     (\<not> assertions \<longrightarrow> length (controllers c) \<le> 1 \<and>
        (\<forall>i<length (controllers c).
           (before_xchg (controllers c ! i) \<and> m_state c = ExitRequested \<longrightarrow> all_returned c) \<and>
           (controllers c ! i = R_notify \<longrightarrow> m_state c \<noteq> ExitRequested) \<and>
           (spawning assertions (controllers c ! i) \<longrightarrow> m_state c = RunRequested)))"





text \<open>
  After \<open>stop()\<close> has returned: no worker is alive, the handle is not joinable, the
  register is ExitRequested or Exited, and every caller is idle or inside \<open>stop()\<close>.
\<close>

fun is_run_call :: "event \<Rightarrow> bool" where
  "is_run_call (Call i Run) = True"
| "is_run_call e = False"

definition quiescent :: "config \<Rightarrow> bool" where
  "quiescent c \<longleftrightarrow> all_returned c \<and> m_thread c = None \<and>
     (m_state c = ExitRequested \<or> m_state c = Exited) \<and>
     list_all (\<lambda>p. p = C_idle \<or> in_stop p) (controllers c)"

definition joining :: "config \<Rightarrow> bool" where
  "joining c \<longleftrightarrow> list_all (\<lambda>p. p = S_notify \<or> p = S_join) (controllers c)"

definition stopping_inv :: "config \<Rightarrow> bool" where
  "stopping_inv c \<longleftrightarrow> (joining c \<longrightarrow> m_state c = ExitRequested \<or> m_state c = Exited)"

text \<open>
  The handle, when joinable, refers to a worker that was started.
\<close>

definition handle_inv :: "config \<Rightarrow> bool" where
  "handle_inv c = (case m_thread c of None \<Rightarrow> True | Some t \<Rightarrow> t < length (workers c))"

text \<open>
  A schedule by which thread 0's \<open>stop()\<close> runs to its end from configuration \<open>c\<close>:
  the caller's exchange (and notification, if the worker was asleep), the steps the
  worker behind the handle still takes once the register holds ExitRequested, and the
  join.
\<close>

fun drain :: "nat \<Rightarrow> wpc \<Rightarrow> event list" where
  "drain t W_cas1 = [Wrk t Proceed, Wrk t Proceed, Wrk t Proceed, Wrk t Proceed]"
| "drain t W_call = [Wrk t Proceed, Wrk t Proceed, Wrk t Proceed, Wrk t Proceed]"
| "drain t W_cas2 = [Wrk t Proceed, Wrk t Proceed, Wrk t Proceed]"
| "drain t W_wait = [Wrk t Proceed, Wrk t Proceed, Wrk t Proceed]"
| "drain t W_cas3 = [Wrk t Proceed, Wrk t Proceed]"
| "drain t W_cas4 = [Wrk t Proceed]"
| "drain t W_returned = []"

definition stop_schedule :: "config \<Rightarrow> event list" where
  "stop_schedule c =
     Call 0 Stop # Ctl 0 # (if m_state c = Sleeping then [Ctl 0] else []) @
     (case m_thread c of None \<Rightarrow> [] | Some t \<Rightarrow> drain t (workers c ! t)) @ [Ctl 0]"

text \<open>
  Who may store what: a worker stores Running, Sleeping or Exited, \<open>run()\<close> stores
  RunRequested, \<open>stop()\<close> stores ExitRequested.
\<close>

fun writer_discipline :: "action \<Rightarrow> bool" where
  "writer_discipline (Store (ByWorker t) v) = (v = Running \<or> v = Sleeping \<or> v = Exited)"
| "writer_discipline (Store (ByRun i) v) = (v = RunRequested)"
| "writer_discipline (Store (ByStop i) v) = (v = ExitRequested)"
| "writer_discipline a = True"

fun may_store :: "cpc list \<Rightarrow> event \<Rightarrow> State \<Rightarrow> bool" where
  "may_store cs (Wrk t ch) v = (v = Running \<or> v = Sleeping \<or> v = Exited)"
| "may_store cs (Ctl i) v = (if in_stop (cs ! i) then v = ExitRequested else v = RunRequested)"
| "may_store cs (Call i ap) v = False"

text \<open>
  The program points of \<open>runSlowCase\<close> after the exchange.
\<close>

definition after_exchange :: "cpc \<Rightarrow> bool" where
  "after_exchange p = (case p of R_notify \<Rightarrow> True | R_assert old \<Rightarrow> True | R_detach \<Rightarrow> True
     | R_spawn \<Rightarrow> True | _ \<Rightarrow> False)"

section \<open>Construction\<close>

text \<open>
  C9. The constructor leaves the register at Exited and the thread handle not joinable,
  starts no thread and does not invoke the work callable.
\<close>

theorem AsyncTask_constructed:
  "m_state (AsyncTask n) = Exited \<and> m_thread (AsyncTask n) = None \<and>
   workers (AsyncTask n) = [] \<and> invocations (AsyncTask n) = 0 \<and> trace (AsyncTask n) = []"
  by (simp add: AsyncTask_def invocations_def)

section \<open>One worker at a time\<close>

lemmas sds = set_wpc_def set_cpc_def emit_def exchange_def compare_exchange_weak_def

lemma inv_init: "a \<or> n \<le> 1 \<Longrightarrow> task_inv a (AsyncTask n)"
  by (auto simp: task_inv_def AsyncTask_def all_returned_def spawning_def before_xchg_def)

lemma wrk_frame:
  assumes "threadRunLoop t ch p c = Some c'"
  shows "controllers c' = controllers c \<and> m_thread c' = m_thread c \<and> crashed c' = crashed c \<and> p \<noteq> W_returned"
  using assms by (cases p; cases ch) (auto simp: sds split: if_splits)

lemma wrk_state:
  assumes "threadRunLoop t ch p c = Some c'"
  shows "(m_state c' = m_state c \<and> (\<exists>p'. p' \<noteq> W_returned \<and> workers c' = (workers c)[t := p'])) \<or>
         (m_state c' = Running \<and> workers c' = (workers c)[t := W_call] \<and> m_state c = RunRequested \<and> p = W_cas1) \<or>
         (m_state c' = Sleeping \<and> workers c' = (workers c)[t := W_wait] \<and> m_state c = Running \<and> p = W_cas2) \<or>
         (m_state c' = Exited \<and> workers c' = (workers c)[t := W_returned])"
  using assms by (cases p; cases ch) (auto simp: sds split: if_splits)

lemma inv_wrk:
  assumes inv: "task_inv a c" and t: "t < length (workers c)"
    and st: "threadRunLoop t ch (workers c ! t) c = Some c'"
  shows "task_inv a c'"
proof -
  from wrk_frame [OF st] have fr: "controllers c' = controllers c" "m_thread c' = m_thread c"
    and act: "workers c ! t \<noteq> W_returned" by simp_all
  from inv t act have mt: "m_thread c = Some t" by (simp add: task_inv_def)
  from t act have nar: "\<not> all_returned c" by (auto simp: all_returned_def)
  from inv nar have nsp: "\<forall>i<length (controllers c). \<not> spawning a (controllers c ! i)"
    and nex: "m_state c \<noteq> Exited"
    and ner: "\<not> a \<longrightarrow> (\<forall>i<length (controllers c). \<not> (before_xchg (controllers c ! i) \<and> m_state c = ExitRequested))"
    by (auto simp: task_inv_def)
  from inv have others: "\<forall>u<length (workers c). u \<noteq> t \<longrightarrow> workers c ! u = W_returned"
    using mt by (auto simp: task_inv_def)
  from inv have single: "\<not> a \<longrightarrow> length (controllers c) \<le> 1"
    and nn: "\<not> a \<longrightarrow> (\<forall>i<length (controllers c). controllers c ! i = R_notify \<longrightarrow> m_state c \<noteq> ExitRequested)"
    by (auto simp: task_inv_def)
  from wrk_state [OF st] obtain p' where w: "workers c' = (workers c)[t := p']"
    and ms: "m_state c' = m_state c \<or> m_state c' = Running \<or> m_state c' = Sleeping \<or> (m_state c' = Exited \<and> p' = W_returned)"
    by auto
  have i1: "\<forall>u<length (workers c'). workers c' ! u \<noteq> W_returned \<longrightarrow> m_thread c' = Some u"
    using others mt fr w t by (auto simp: nth_list_update)
  have i4: "m_state c' = Exited \<longrightarrow> all_returned c'"
    using ms nex others w t by (auto simp: all_returned_def nth_list_update)
  have i5: "\<not> a \<longrightarrow> (\<forall>i<length (controllers c').
           (before_xchg (controllers c' ! i) \<and> m_state c' = ExitRequested \<longrightarrow> all_returned c') \<and>
           (controllers c' ! i = R_notify \<longrightarrow> m_state c' \<noteq> ExitRequested) \<and>
           (spawning a (controllers c' ! i) \<longrightarrow> m_state c' = RunRequested))"
    using ms ner nn nsp fr by auto
  show ?thesis
    unfolding task_inv_def using i1 i4 i5 nsp single fr by simp
qed

lemma inv_load:
  assumes "task_inv a c" "i < length (controllers c)" "controllers c ! i = R_load" "run a i R_load c = Some c'"
  shows "task_inv a c'"
  using assms
  by (auto simp: task_inv_def sds all_returned_def spawning_def before_xchg_def nth_list_update nth_append less_Suc_eq_0_disj
       split: if_splits option.splits)

lemma inv_rxchg:
  assumes "task_inv a c" "i < length (controllers c)" "controllers c ! i = R_xchg" "run a i R_xchg c = Some c'"
  shows "task_inv a c'"
  using assms
  by (cases "m_state c")
     (auto simp: task_inv_def sds all_returned_def spawning_def before_xchg_def nth_list_update less_Suc_eq_0_disj
       split: if_splits)

lemma inv_rnotify:
  assumes "task_inv a c" "i < length (controllers c)" "controllers c ! i = R_notify" "run a i R_notify c = Some c'"
  shows "task_inv a c'"
  using assms
  by (auto simp: task_inv_def sds all_returned_def spawning_def before_xchg_def nth_list_update nth_append less_Suc_eq_0_disj
       split: if_splits option.splits)

lemma inv_rassert:
  assumes "task_inv a c" "i < length (controllers c)" "controllers c ! i = R_assert old" "run a i (R_assert old) c = Some c'"
  shows "task_inv a c'"
  using assms
  by (auto simp: task_inv_def sds all_returned_def spawning_def before_xchg_def nth_list_update nth_append less_Suc_eq_0_disj
       split: if_splits option.splits)

lemma inv_rdetach:
  assumes "task_inv a c" "i < length (controllers c)" "controllers c ! i = R_detach" "run a i R_detach c = Some c'"
  shows "task_inv a c'"
  using assms
  by (auto simp: task_inv_def sds all_returned_def spawning_def before_xchg_def nth_list_update nth_append less_Suc_eq_0_disj
       split: if_splits option.splits)

lemma inv_rspawn:
  assumes "task_inv a c" "i < length (controllers c)" "controllers c ! i = R_spawn" "run a i R_spawn c = Some c'"
  shows "task_inv a c'"
  using assms
  by (auto simp: task_inv_def sds all_returned_def spawning_def before_xchg_def nth_list_update nth_append less_Suc_eq_0_disj
       split: if_splits option.splits)

lemma inv_sxchg:
  assumes "task_inv a c" "i < length (controllers c)" "controllers c ! i = S_xchg" "stop i S_xchg c = Some c'"
  shows "task_inv a c'"
  using assms
  by (auto simp: task_inv_def sds all_returned_def spawning_def before_xchg_def nth_list_update nth_append less_Suc_eq_0_disj
       split: if_splits option.splits)

lemma inv_snotify:
  assumes "task_inv a c" "i < length (controllers c)" "controllers c ! i = S_notify" "stop i S_notify c = Some c'"
  shows "task_inv a c'"
  using assms
  by (auto simp: task_inv_def sds all_returned_def spawning_def before_xchg_def nth_list_update nth_append less_Suc_eq_0_disj
       split: if_splits option.splits)

lemma inv_sjoin:
  assumes inv: "task_inv a c" and i: "i < length (controllers c)" and pc: "controllers c ! i = S_join"
    and st: "stop i S_join c = Some c'"
  shows "task_inv a c'"
proof -
  from st have ar: "all_returned c"
    using inv by (auto simp: task_inv_def all_returned_def split: option.splits if_splits)
  from st have fr: "m_state c' = m_state c" "workers c' = workers c"
    "controllers c' = (controllers c)[i := C_idle]" "m_thread c' = None"
    by (auto simp: sds split: option.splits if_splits)
  have ar': "all_returned c'" using ar fr by (simp add: all_returned_def)
  have i1: "\<forall>t<length (workers c'). workers c' ! t \<noteq> W_returned \<longrightarrow> m_thread c' = Some t"
    using ar' by (simp add: all_returned_def)
  show ?thesis
    unfolding task_inv_def
    using inv i pc ar' fr i1
    by (auto simp: task_inv_def nth_list_update spawning_def before_xchg_def)
qed

lemma inv_call:
  assumes "task_inv a c" "i < length (controllers c)" "controllers c ! i = C_idle"
  shows "task_inv a (set_cpc i (case ap of Run \<Rightarrow> R_load | Stop \<Rightarrow> S_xchg) c)"
  using assms
  by (cases ap)
     (auto simp: task_inv_def sds all_returned_def spawning_def before_xchg_def nth_list_update less_Suc_eq_0_disj)

lemma inv_step:
  assumes "task_inv a c" "step a e c = Some c'"
  shows "task_inv a c'"
proof (cases e)
  case (Call i ap)
  with assms show ?thesis
    by (auto simp: step_def inv_call split: if_splits)
next
  case (Ctl i)
  with assms have i: "i < length (controllers c)"
    and st: "(if in_stop (controllers c ! i) then stop i (controllers c ! i) c
              else run a i (controllers c ! i) c) = Some c'"
    by (auto simp: step_def split: if_splits)
  show ?thesis
  proof (cases "controllers c ! i")
    case C_idle with st show ?thesis by (simp add: in_stop_def)
  next
    case R_load with st assms(1) i show ?thesis by (simp add: in_stop_def inv_load)
  next
    case R_xchg with st assms(1) i show ?thesis by (simp add: in_stop_def inv_rxchg)
  next
    case R_notify with st assms(1) i show ?thesis by (simp add: in_stop_def inv_rnotify)
  next
    case (R_assert old) with st assms(1) i show ?thesis
      using inv_rassert [of a c i old c'] by (simp add: in_stop_def)
  next
    case R_detach with st assms(1) i show ?thesis by (simp add: in_stop_def inv_rdetach)
  next
    case R_spawn with st assms(1) i show ?thesis by (simp add: in_stop_def inv_rspawn)
  next
    case S_xchg with st assms(1) i show ?thesis by (simp add: in_stop_def inv_sxchg)
  next
    case S_notify with st assms(1) i show ?thesis by (simp add: in_stop_def inv_snotify)
  next
    case S_join with st assms(1) i show ?thesis by (simp add: in_stop_def inv_sjoin)
  qed
next
  case (Wrk t ch)
  with assms show ?thesis
    by (auto simp: step_def inv_wrk split: if_splits)
qed

lemma inv_run_events:
  "task_inv a c \<Longrightarrow> run_events a es c = Some c' \<Longrightarrow> task_inv a c'"
proof (induction es arbitrary: c)
  case Nil
  then show ?case by simp
next
  case (Cons e es)
  then show ?case by (auto split: option.splits dest: inv_step)
qed

lemma inv_reachable:
  "a \<or> n \<le> 1 \<Longrightarrow> run_events a es (AsyncTask n) = Some c \<Longrightarrow> task_inv a c"
  using inv_init inv_run_events by blast












section \<open>Properties of the worker loop\<close>













section \<open>Properties of the public operations\<close>

text \<open>
  C5. When \<open>run()\<close> finds RunRequested in the register it returns at once: the step from
  the test changes nothing but the caller's program point, and the whole call leaves the
  configuration as it was (no store, no trace entry).
\<close>

theorem run_fast_path:
  assumes "\<not> crashed c" and "i < length (controllers c)" and "m_state c = RunRequested"
  shows "(controllers c ! i = R_load \<longrightarrow>
            step a (Ctl i) c = Some (c\<lparr>controllers := (controllers c)[i := C_idle]\<rparr>)) \<and>
         (controllers c ! i = C_idle \<longrightarrow> run_events a [Call i Run, Ctl i] c = Some c)"
proof -
  have "(controllers c)[i := C_idle] = controllers c" if "controllers c ! i = C_idle"
    using that list_update_id [of "controllers c" i] by simp
  with assms show ?thesis by (auto simp: step_def sds in_stop_def)
qed

theorem run_fast_path_witness:
  "run_events True [Call 0 Run, Ctl 0]
     \<lparr>m_state = RunRequested, m_thread = Some 0, workers = [W_cas1], controllers = [C_idle],
       crashed = False, trace = [Spawn 0 0, Store (ByRun 0) RunRequested]\<rparr> =
   Some \<lparr>m_state = RunRequested, m_thread = Some 0, workers = [W_cas1], controllers = [C_idle],
       crashed = False, trace = [Spawn 0 0, Store (ByRun 0) RunRequested]\<rparr> \<and>
   step True (Ctl 0)
     \<lparr>m_state = RunRequested, m_thread = Some 0, workers = [W_cas1], controllers = [R_load],
       crashed = False, trace = [Spawn 0 0, Store (ByRun 0) RunRequested]\<rparr> =
   Some \<lparr>m_state = RunRequested, m_thread = Some 0, workers = [W_cas1], controllers = [C_idle],
       crashed = False, trace = [Spawn 0 0, Store (ByRun 0) RunRequested]\<rparr>"
proof -
  let ?c = "\<lparr>m_state = RunRequested, m_thread = Some 0, workers = [W_cas1], controllers = [C_idle],
       crashed = False, trace = [Spawn 0 0, Store (ByRun 0) RunRequested]\<rparr>"
  let ?d = "\<lparr>m_state = RunRequested, m_thread = Some 0, workers = [W_cas1], controllers = [R_load],
       crashed = False, trace = [Spawn 0 0, Store (ByRun 0) RunRequested]\<rparr>"
  have c: "\<not> crashed ?c" "0 < length (controllers ?c)" "m_state ?c = RunRequested"
    and d: "\<not> crashed ?d" "0 < length (controllers ?d)" "m_state ?d = RunRequested"
    and pc: "controllers ?c ! 0 = C_idle" and pd: "controllers ?d ! 0 = R_load" by simp_all
  note 1 = run_fast_path [OF c, of True, THEN conjunct2, THEN mp, OF pc]
  note 2 = run_fast_path [OF d, of True, THEN conjunct1, THEN mp, OF pd]
  from 1 2 show ?thesis by simp
qed

lemma run_ignores_register:
  "after_exchange p \<Longrightarrow>
   run a i p (c\<lparr>m_state := s\<rparr>) = map_option (\<lambda>c'. c'\<lparr>m_state := s\<rparr>) (run a i p c)"
  by (cases p) (auto simp: after_exchange_def sds)

text \<open>
  C4. \<open>runSlowCase\<close> exchanges the register to RunRequested and goes by the previous
  value: RunRequested or Running, it returns; Sleeping, it notifies the condition and
  returns; Exited, it detaches the handle if joinable and starts a worker at the head of
  the worker loop. Past the exchange no step of the call reads the register.
\<close>

theorem runSlowCase_acts_on_old_state:
  assumes "\<not> crashed c" and "i < length (controllers c)" and "controllers c ! i = R_xchg"
  shows "(m_state c = RunRequested \<or> m_state c = Running \<longrightarrow>
            step a (Ctl i) c =
              Some (c\<lparr>m_state := RunRequested, controllers := (controllers c)[i := C_idle],
                      trace := Store (ByRun i) RunRequested # trace c\<rparr>)) \<and>
         (m_state c = Sleeping \<longrightarrow>
            run_events a [Ctl i, Ctl i] c =
              Some (c\<lparr>m_state := RunRequested, controllers := (controllers c)[i := C_idle],
                      trace := Notify i # Store (ByRun i) RunRequested # trace c\<rparr>)) \<and>
         (m_state c = Exited \<longrightarrow>
            run_events a [Ctl i, Ctl i, Ctl i, Ctl i] c =
              Some (c\<lparr>m_state := RunRequested, m_thread := Some (length (workers c)),
                      workers := workers c @ [W_cas1],
                      controllers := (controllers c)[i := C_idle],
                      trace := Spawn i (length (workers c)) #
                        (if m_thread c \<noteq> None then [Detach i] else []) @
                        Store (ByRun i) RunRequested # trace c\<rparr>)) \<and>
         (\<forall>p s. after_exchange p \<longrightarrow>
            run a i p (c\<lparr>m_state := s\<rparr>) = map_option (\<lambda>c'. c'\<lparr>m_state := s\<rparr>) (run a i p c))"
proof -
  have 1: "step a (Ctl i) c =
              Some (c\<lparr>m_state := RunRequested, controllers := (controllers c)[i := C_idle],
                      trace := Store (ByRun i) RunRequested # trace c\<rparr>)"
    if "m_state c = RunRequested \<or> m_state c = Running"
    using that assms by (auto simp: step_def sds in_stop_def)
  have 2: "run_events a [Ctl i, Ctl i] c =
              Some (c\<lparr>m_state := RunRequested, controllers := (controllers c)[i := C_idle],
                      trace := Notify i # Store (ByRun i) RunRequested # trace c\<rparr>)"
    if "m_state c = Sleeping"
    using that assms by (simp add: step_def sds in_stop_def)
  have 3: "run_events a [Ctl i, Ctl i, Ctl i, Ctl i] c =
              Some (c\<lparr>m_state := RunRequested, m_thread := Some (length (workers c)),
                      workers := workers c @ [W_cas1],
                      controllers := (controllers c)[i := C_idle],
                      trace := Spawn i (length (workers c)) #
                        (if m_thread c \<noteq> None then [Detach i] else []) @
                        Store (ByRun i) RunRequested # trace c\<rparr>)"
    if "m_state c = Exited"
    using that assms by (simp add: step_def sds in_stop_def)
  from 1 2 3 run_ignores_register show ?thesis by blast
qed

theorem runSlowCase_acts_on_old_state_witness:
  "run_events True [Ctl 0, Ctl 0, Ctl 0, Ctl 0]
     \<lparr>m_state = Exited, m_thread = None, workers = [], controllers = [R_xchg],
       crashed = False, trace = []\<rparr> =
   Some \<lparr>m_state = RunRequested, m_thread = Some 0, workers = [W_cas1], controllers = [C_idle],
       crashed = False, trace = [Spawn 0 0, Store (ByRun 0) RunRequested]\<rparr> \<and>
   run_events True [Ctl 0, Ctl 0]
     \<lparr>m_state = Sleeping, m_thread = Some 0, workers = [W_wait], controllers = [R_xchg],
       crashed = False, trace = []\<rparr> =
   Some \<lparr>m_state = RunRequested, m_thread = Some 0, workers = [W_wait], controllers = [C_idle],
       crashed = False, trace = [Notify 0, Store (ByRun 0) RunRequested]\<rparr> \<and>
   step True (Ctl 0)
     \<lparr>m_state = Running, m_thread = Some 0, workers = [W_call], controllers = [R_xchg],
       crashed = False, trace = []\<rparr> =
   Some \<lparr>m_state = RunRequested, m_thread = Some 0, workers = [W_call], controllers = [C_idle],
       crashed = False, trace = [Store (ByRun 0) RunRequested]\<rparr>"
proof -
  let ?e = "\<lparr>m_state = Exited, m_thread = None, workers = [], controllers = [R_xchg],
       crashed = False, trace = []\<rparr>"
  let ?s = "\<lparr>m_state = Sleeping, m_thread = Some 0, workers = [W_wait], controllers = [R_xchg],
       crashed = False, trace = []\<rparr>"
  let ?r = "\<lparr>m_state = Running, m_thread = Some 0, workers = [W_call], controllers = [R_xchg],
       crashed = False, trace = []\<rparr>"
  have e: "\<not> crashed ?e" "0 < length (controllers ?e)" "controllers ?e ! 0 = R_xchg"
    and s: "\<not> crashed ?s" "0 < length (controllers ?s)" "controllers ?s ! 0 = R_xchg"
    and r: "\<not> crashed ?r" "0 < length (controllers ?r)" "controllers ?r ! 0 = R_xchg"
    by simp_all
  have me: "m_state ?e = Exited" and ms: "m_state ?s = Sleeping"
    and mr: "m_state ?r = RunRequested \<or> m_state ?r = Running" by simp_all
  note 1 = runSlowCase_acts_on_old_state [OF e, of True, THEN conjunct2, THEN conjunct2,
      THEN conjunct1, THEN mp, OF me]
  note 2 = runSlowCase_acts_on_old_state [OF s, of True, THEN conjunct2, THEN conjunct1,
      THEN mp, OF ms]
  note 3 = runSlowCase_acts_on_old_state [OF r, of True, THEN conjunct1, THEN mp, OF mr]
  from 1 2 3 show ?thesis by simp
qed

section \<open>A request during an invocation\<close>



lemma list_all_update:
  "list_all P xs \<Longrightarrow> P x \<Longrightarrow> list_all P (xs[i := x])"
  by (induction xs arbitrary: i) (auto split: nat.splits)







section \<open>Stopping twice\<close>

lemma joining_update:
  "i < length (controllers c) \<Longrightarrow> p \<noteq> S_notify \<Longrightarrow> p \<noteq> S_join \<Longrightarrow>
   \<not> joining (c\<lparr>controllers := (controllers c)[i := p]\<rparr>)"
  by (auto simp: joining_def list_all_length nth_list_update)

lemma stopping_wrk:
  assumes "threadRunLoop t ch p c = Some c'" "stopping_inv c"
  shows "stopping_inv c'"
  using assms
  by (cases p; cases ch) (auto simp: sds stopping_inv_def joining_def split: if_splits)

lemma stopping_ctl:
  assumes st: "(if in_stop p then stop i p c else run a i p c) = Some c'" and si: "stopping_inv c"
    and i: "i < length (controllers c)" and p: "controllers c ! i = p"
  shows "stopping_inv c'"
proof (cases "p = S_notify \<or> p = S_xchg")
  case True
  then show ?thesis
  proof
    assume n: "p = S_notify"
    with st have c': "controllers c' = (controllers c)[i := S_join]" "m_state c' = m_state c"
      by (auto simp: sds in_stop_def)
    have "joining c" if j: "joining c'"
      unfolding joining_def list_all_length
    proof (intro allI impI)
      fix k assume k: "k < length (controllers c)"
      show "controllers c ! k = S_notify \<or> controllers c ! k = S_join"
      proof (cases "k = i")
        case True
        with p n show ?thesis by simp
      next
        case False
        from j k c' have "controllers c' ! k = S_notify \<or> controllers c' ! k = S_join"
          by (simp add: joining_def list_all_length)
        with False c' show ?thesis by simp
      qed
    qed
    with si c' show ?thesis by (auto simp: stopping_inv_def)
  next
    assume "p = S_xchg"
    with st show ?thesis by (auto simp: sds in_stop_def stopping_inv_def)
  qed
next
  case False
  with st i p have "i < length (controllers c') \<and> controllers c' ! i \<noteq> S_notify \<and>
      controllers c' ! i \<noteq> S_join"
    by (cases p) (auto simp: sds in_stop_def split: if_splits option.splits)
  then have "\<not> joining c'" by (auto simp: joining_def list_all_length)
  then show ?thesis by (simp add: stopping_inv_def)
qed

lemma stopping_step:
  assumes "stopping_inv c" "step a e c = Some c'"
  shows "stopping_inv c'"
proof (cases e)
  case (Call i ap)
  with assms(2) have "\<not> joining c'"
    by (cases ap) (auto simp: step_def set_cpc_def joining_update split: if_splits)
  then show ?thesis by (simp add: stopping_inv_def)
next
  case (Ctl i)
  with assms show ?thesis
    by (auto simp: step_def split: if_splits intro: stopping_ctl)
next
  case (Wrk t ch)
  with assms show ?thesis
    by (auto simp: step_def split: if_splits intro: stopping_wrk)
qed

lemma stopping_run_events:
  "stopping_inv c \<Longrightarrow> run_events a es c = Some c' \<Longrightarrow> stopping_inv c'"
  by (induction es arbitrary: c) (auto split: option.splits dest: stopping_step)

lemma stopping_init: "stopping_inv (AsyncTask n)"
  by (simp add: stopping_inv_def AsyncTask_def)

lemma stop_quiescent:
  assumes "stop i p c = Some c'" "i < length (controllers c)" "quiescent c"
  shows "quiescent c' \<and> invocations c' = invocations c \<and> joins c' = joins c"
  using assms
  by (cases p)
     (auto simp: sds quiescent_def all_returned_def invocations_def joins_def in_stop_def
        list_all_update split: if_splits option.splits)

lemma quiescent_step:
  assumes q: "quiescent c" and e: "\<not> is_run_call e" and s: "step a e c = Some c'"
  shows "quiescent c' \<and> invocations c' = invocations c \<and> joins c' = joins c"
proof (cases e)
  case (Call i ap)
  with e have "ap = Stop" by (cases ap) auto
  with Call s q show ?thesis
    by (auto simp: step_def set_cpc_def quiescent_def all_returned_def invocations_def joins_def
        in_stop_def list_all_update split: if_splits)
next
  case (Ctl i)
  with s have i: "i < length (controllers c)"
    and st: "(if in_stop (controllers c ! i) then stop i (controllers c ! i) c
              else run a i (controllers c ! i) c) = Some c'"
    by (auto simp: step_def split: if_splits)
  from q i have "controllers c ! i = C_idle \<or> in_stop (controllers c ! i)"
    by (simp add: quiescent_def list_all_length)
  with st have "stop i (controllers c ! i) c = Some c'"
    by (auto simp: in_stop_def)
  from stop_quiescent [OF this i q] show ?thesis .
next
  case (Wrk t ch)
  with s have t: "t < length (workers c)"
    and st: "threadRunLoop t ch (workers c ! t) c = Some c'"
    by (auto simp: step_def split: if_splits)
  from q t have "workers c ! t = W_returned" by (simp add: quiescent_def all_returned_def)
  with st show ?thesis by simp
qed

lemma quiescent_run_events:
  "quiescent c \<Longrightarrow> \<forall>e\<in>set es. \<not> is_run_call e \<Longrightarrow> run_events a es c = Some c' \<Longrightarrow>
   quiescent c' \<and> invocations c' = invocations c \<and> joins c' = joins c"
proof (induction es arbitrary: c)
  case Nil
  then show ?case by simp
next
  case (Cons e es)
  from Cons.prems obtain c1 where s: "step a e c = Some c1" and r: "run_events a es c1 = Some c'"
    by (auto split: option.splits)
  from Cons.prems(2) have "\<not> is_run_call e" by simp
  from quiescent_step [OF Cons.prems(1) this s]
  have "quiescent c1 \<and> invocations c1 = invocations c \<and> joins c1 = joins c" .
  with Cons.IH [of c1] Cons.prems(2) r show ?case by simp
qed

lemma quiescent_no_worker: "quiescent c \<Longrightarrow> step a (Wrk t ch) c = None"
  by (auto simp: quiescent_def all_returned_def step_def)

lemma step_controllers_length:
  assumes "step a e c = Some c'"
  shows "length (controllers c') = length (controllers c)"
proof (cases e)
  case (Call i ap)
  with assms show ?thesis by (auto simp: step_def set_cpc_def split: if_splits)
next
  case (Ctl i)
  with assms show ?thesis
    by (cases "controllers c ! i")
       (auto simp: step_def sds in_stop_def split: if_splits option.splits)
next
  case (Wrk t ch)
  with assms wrk_frame [of t ch "workers c ! t" c c'] show ?thesis
    by (auto simp: step_def split: if_splits)
qed

lemma run_events_controllers_length:
  "run_events a es c = Some c' \<Longrightarrow> length (controllers c') = length (controllers c)"
  by (induction es arbitrary: c) (auto split: option.splits dest: step_controllers_length)

lemma join_returns_quiescent:
  assumes inv: "task_inv a c" and si: "stopping_inv c" and len: "length (controllers c) = 1"
    and pc: "controllers c ! 0 = S_join" and s: "step a (Ctl 0) c = Some c1"
  shows "quiescent c1 \<and> controllers c1 = [C_idle] \<and> \<not> crashed c1"
proof -
  from len obtain p where cs: "controllers c = [p]"
    by (cases "controllers c") auto
  with pc have cs: "controllers c = [S_join]" by simp
  from s cs have nc: "\<not> crashed c" and st: "stop 0 S_join c = Some c1"
    by (auto simp: step_def in_stop_def split: if_splits)
  from st inv have ar: "all_returned c"
    by (auto simp: task_inv_def all_returned_def split: option.splits if_splits)
  from si cs have "m_state c = ExitRequested \<or> m_state c = Exited"
    by (simp add: stopping_inv_def joining_def)
  with st cs nc ar show ?thesis
    by (auto simp: sds quiescent_def all_returned_def in_stop_def split: option.splits if_splits)
qed

lemma quiescent_stop_again:
  assumes "quiescent c" "controllers c = [C_idle]" "\<not> crashed c"
  shows "\<exists>c'. run_events a [Call 0 Stop, Ctl 0, Ctl 0] c = Some c' \<and> controllers c' = [C_idle] \<and>
     m_state c' = ExitRequested"
  using assms
  by (auto simp: step_def sds quiescent_def in_stop_def)

lemma handle_inv_iff: "handle_inv c \<longleftrightarrow> (\<forall>t. m_thread c = Some t \<longrightarrow> t < length (workers c))"
  by (simp add: handle_inv_def split: option.splits)

lemma handle_step:
  assumes "handle_inv c" "step a e c = Some c'"
  shows "handle_inv c'"
proof (cases e)
  case (Call i ap)
  with assms show ?thesis by (auto simp: step_def set_cpc_def handle_inv_iff split: if_splits)
next
  case (Ctl i)
  with assms show ?thesis
    by (cases "controllers c ! i")
       (auto simp: step_def sds in_stop_def handle_inv_iff split: if_splits option.splits)
next
  case (Wrk t ch)
  with assms(2) have s: "threadRunLoop t ch (workers c ! t) c = Some c'"
    by (auto simp: step_def split: if_splits)
  from wrk_frame [OF s] wrk_state [OF s] assms(1) show ?thesis
    by (auto simp: handle_inv_iff)
qed

lemma handle_run_events:
  "handle_inv c \<Longrightarrow> run_events a es c = Some c' \<Longrightarrow> handle_inv c'"
  by (induction es arbitrary: c) (auto split: option.splits dest: handle_step)

lemma handle_reachable: "run_events a es (AsyncTask n) = Some c \<Longrightarrow> handle_inv c"
  using handle_run_events [of "AsyncTask n" a es c] by (simp add: handle_inv_iff AsyncTask_def)

lemma run_events_append:
  "run_events a (xs @ ys) c =
     (case run_events a xs c of None \<Rightarrow> None | Some c' \<Rightarrow> run_events a ys c')"
  by (induction xs arbitrary: c) (auto split: option.splits)

lemma drain_returns:
  assumes "\<not> crashed d" "m_state d = ExitRequested" "t < length (workers d)"
  shows "\<exists>d'. run_events a (drain t (workers d ! t)) d = Some d' \<and> workers d' ! t = W_returned \<and>
           length (workers d') = length (workers d) \<and> controllers d' = controllers d \<and>
           m_thread d' = m_thread d \<and> \<not> crashed d'"
  using assms by (cases "workers d ! t") (simp_all add: step_def sds)

lemma stop_reaches_join:
  assumes "\<not> crashed c" "controllers c = [C_idle]"
  shows "\<exists>d. run_events a (Call 0 Stop # Ctl 0 # (if m_state c = Sleeping then [Ctl 0] else [])) c = Some d \<and>
           m_state d = ExitRequested \<and> controllers d = [S_join] \<and> workers d = workers c \<and>
           m_thread d = m_thread c \<and> \<not> crashed d"
  using assms by (simp add: step_def sds in_stop_def)

lemma join_step:
  assumes "\<not> crashed d" "controllers d = [S_join]"
    "m_thread d = None \<or> (\<exists>t. m_thread d = Some t \<and> t < length (workers d) \<and> workers d ! t = W_returned)"
  shows "\<exists>c1. run_events a [Ctl 0] d = Some c1 \<and> controllers c1 = [C_idle]"
  using assms by (auto simp: step_def sds in_stop_def)

lemma stop_can_return:
  assumes h: "handle_inv c" and nc: "\<not> crashed c" and cs: "controllers c = [C_idle]"
  shows "\<exists>c1. run_events a (stop_schedule c) c = Some c1 \<and> controllers c1 = [C_idle]"
proof -
  let ?pre = "Call 0 Stop # Ctl 0 # (if m_state c = Sleeping then [Ctl 0] else [])"
  from stop_reaches_join [OF nc cs, of a] obtain d where d: "run_events a ?pre c = Some d"
    "m_state d = ExitRequested" "controllers d = [S_join]" "workers d = workers c"
    "m_thread d = m_thread c" "\<not> crashed d" by blast
  show ?thesis
  proof (cases "m_thread c")
    case None
    with d have "m_thread d = None \<or> (\<exists>t. m_thread d = Some t \<and> t < length (workers d) \<and> workers d ! t = W_returned)"
      by simp
    from join_step [OF d(6) d(3) this, of a] obtain c1
      where "run_events a [Ctl 0] d = Some c1" "controllers c1 = [C_idle]" by blast
    with d(1) None have "run_events a (?pre @ [Ctl 0]) c = Some c1"
      by (simp only: run_events_append option.case)
    moreover from None have "stop_schedule c = ?pre @ [Ctl 0]" by (simp add: stop_schedule_def)
    ultimately show ?thesis using \<open>controllers c1 = [C_idle]\<close> by auto
  next
    case (Some t)
    with h have t: "t < length (workers d)" using d(4) by (simp add: handle_inv_iff)
    from drain_returns [OF d(6) d(2) t, of a] obtain d'
      where d': "run_events a (drain t (workers d ! t)) d = Some d'" "workers d' ! t = W_returned"
        "length (workers d') = length (workers d)" "controllers d' = controllers d"
        "m_thread d' = m_thread d" "\<not> crashed d'" by blast
    from d' d Some t have "m_thread d' = None \<or>
        (\<exists>t. m_thread d' = Some t \<and> t < length (workers d') \<and> workers d' ! t = W_returned)"
      by simp
    moreover from d' d have "controllers d' = [S_join]" by simp
    ultimately obtain c1 where c1: "run_events a [Ctl 0] d' = Some c1" "controllers c1 = [C_idle]"
      using join_step [OF d'(6), of a] by blast
    from d(1) d'(1) c1(1) have "run_events a (?pre @ drain t (workers d ! t) @ [Ctl 0]) c = Some c1"
      by (simp only: run_events_append option.case)
    moreover from Some d(4) have "stop_schedule c = ?pre @ drain t (workers d ! t) @ [Ctl 0]"
      by (simp add: stop_schedule_def)
    ultimately show ?thesis using c1(2) by auto
  qed
qed

text \<open>
  C6. One calling thread. From every reachable configuration in which the caller is idle
  a \<open>stop()\<close> can run to its end (the worker needs at most four more steps). Once a
  \<open>stop()\<close> has returned, a second \<open>stop()\<close> runs to its end by the caller's own three
  steps (exchange, no notification, the guarded join skipped), with no join and no
  invocation; and whatever happens afterwards, as long as \<open>run()\<close> is not called, nothing
  is joined, nothing is invoked and no worker can take a step.
\<close>

theorem stop_twice:
  assumes "run_events a es (AsyncTask 1) = Some c"
  shows "(\<not> crashed c \<and> controllers c ! 0 = C_idle \<longrightarrow>
            (\<exists>c1. run_events a (stop_schedule c) c = Some c1 \<and> controllers c1 = [C_idle])) \<and>
         (controllers c ! 0 = S_join \<and> step a (Ctl 0) c = Some c1 \<longrightarrow>
            (\<exists>c2. run_events a [Call 0 Stop, Ctl 0, Ctl 0] c1 = Some c2 \<and> controllers c2 = [C_idle] \<and>
               joins c2 = joins c1 \<and> invocations c2 = invocations c1) \<and>
            (\<forall>es' c'. (\<forall>e\<in>set es'. \<not> is_run_call e) \<and> run_events a es' c1 = Some c' \<longrightarrow>
               joins c' = joins c1 \<and> invocations c' = invocations c1 \<and>
               (\<forall>t ch. step a (Wrk t ch) c' = None)))"
proof -
  have len: "length (controllers c) = 1"
    using run_events_controllers_length [OF assms] by (simp add: AsyncTask_def)
  have first: "\<exists>c1. run_events a (stop_schedule c) c = Some c1 \<and> controllers c1 = [C_idle]"
    if i: "\<not> crashed c \<and> controllers c ! 0 = C_idle"
  proof -
    from len obtain p where "controllers c = [p]" by (cases "controllers c") auto
    with i have cs: "controllers c = [C_idle]" by simp
    from stop_can_return [OF handle_reachable [OF assms] _ cs] i show ?thesis by simp
  qed
  have second: "(\<exists>c2. run_events a [Call 0 Stop, Ctl 0, Ctl 0] c1 = Some c2 \<and> controllers c2 = [C_idle] \<and>
               joins c2 = joins c1 \<and> invocations c2 = invocations c1) \<and>
            (\<forall>es' c'. (\<forall>e\<in>set es'. \<not> is_run_call e) \<and> run_events a es' c1 = Some c' \<longrightarrow>
               joins c' = joins c1 \<and> invocations c' = invocations c1 \<and>
               (\<forall>t ch. step a (Wrk t ch) c' = None))"
    if j: "controllers c ! 0 = S_join \<and> step a (Ctl 0) c = Some c1"
  proof -
    have ti: "task_inv a c" using inv_reachable [of a 1 es c] assms by simp
    have si: "stopping_inv c" using stopping_init assms by (rule stopping_run_events)
    from j join_returns_quiescent [OF ti si len]
    have q: "quiescent c1" and cs: "controllers c1 = [C_idle]" and nc: "\<not> crashed c1" by simp_all
    have later: "joins c' = joins c1 \<and> invocations c' = invocations c1 \<and>
              (\<forall>t ch. step a (Wrk t ch) c' = None)"
      if "\<forall>e\<in>set es'. \<not> is_run_call e" "run_events a es' c1 = Some c'" for es' c'
      using quiescent_run_events [OF q that] quiescent_no_worker by simp
    from quiescent_stop_again [OF q cs nc] obtain c2
      where c2: "run_events a [Call 0 Stop, Ctl 0, Ctl 0] c1 = Some c2" "controllers c2 = [C_idle]"
      by blast
    have "\<forall>e\<in>set [Call 0 Stop, Ctl 0, Ctl 0]. \<not> is_run_call e" by simp
    from later [OF this c2(1)] c2 later show ?thesis by blast
  qed
  show ?thesis
  proof (rule conjI)
    show "\<not> crashed c \<and> controllers c ! 0 = C_idle \<longrightarrow>
            (\<exists>c1. run_events a (stop_schedule c) c = Some c1 \<and> controllers c1 = [C_idle])"
      using first by (rule impI)
  next
    show "controllers c ! 0 = S_join \<and> step a (Ctl 0) c = Some c1 \<longrightarrow>
            (\<exists>c2. run_events a [Call 0 Stop, Ctl 0, Ctl 0] c1 = Some c2 \<and> controllers c2 = [C_idle] \<and>
               joins c2 = joins c1 \<and> invocations c2 = invocations c1) \<and>
            (\<forall>es' c'. (\<forall>e\<in>set es'. \<not> is_run_call e) \<and> run_events a es' c1 = Some c' \<longrightarrow>
               joins c' = joins c1 \<and> invocations c' = invocations c1 \<and>
               (\<forall>t ch. step a (Wrk t ch) c' = None))"
      using second by (rule impI)
  qed
qed

theorem stop_twice_witness:
  "(\<exists>c1. run_events True
      (stop_schedule \<lparr>m_state = RunRequested, m_thread = Some 0, workers = [W_cas1],
         controllers = [C_idle], crashed = False,
         trace = [Spawn 0 0, Store (ByRun 0) RunRequested]\<rparr>)
      \<lparr>m_state = RunRequested, m_thread = Some 0, workers = [W_cas1],
         controllers = [C_idle], crashed = False,
         trace = [Spawn 0 0, Store (ByRun 0) RunRequested]\<rparr> = Some c1 \<and>
      controllers c1 = [C_idle]) \<and>
   run_events True [Call 0 Stop, Ctl 0, Ctl 0]
     \<lparr>m_state = Exited, m_thread = None, workers = [W_returned], controllers = [C_idle],
       crashed = False,
       trace = [Join 0 0, Store (ByWorker 0) Exited, CasFailed 0 Sleeping, CasFailed 0 Running,
         CasFailed 0 RunRequested, Store (ByStop 0) ExitRequested, Spawn 0 0,
         Store (ByRun 0) RunRequested]\<rparr> =
   Some \<lparr>m_state = ExitRequested, m_thread = None, workers = [W_returned], controllers = [C_idle],
       crashed = False,
       trace = [Store (ByStop 0) ExitRequested, Join 0 0, Store (ByWorker 0) Exited,
         CasFailed 0 Sleeping, CasFailed 0 Running,
         CasFailed 0 RunRequested, Store (ByStop 0) ExitRequested, Spawn 0 0,
         Store (ByRun 0) RunRequested]\<rparr> \<and>
   joins \<lparr>m_state = ExitRequested, m_thread = None, workers = [W_returned], controllers = [C_idle],
       crashed = False,
       trace = [Store (ByStop 0) ExitRequested, Join 0 0, Store (ByWorker 0) Exited,
         CasFailed 0 Sleeping, CasFailed 0 Running,
         CasFailed 0 RunRequested, Store (ByStop 0) ExitRequested, Spawn 0 0,
         Store (ByRun 0) RunRequested]\<rparr> = 1"
proof -
  let ?b = "\<lparr>m_state = RunRequested, m_thread = Some 0, workers = [W_cas1],
         controllers = [C_idle], crashed = False,
         trace = [Spawn 0 0, Store (ByRun 0) RunRequested]\<rparr>"
  let ?es = "[Call 0 Run, Ctl 0, Ctl 0, Ctl 0, Ctl 0, Ctl 0, Call 0 Stop, Ctl 0,
      Wrk 0 Proceed, Wrk 0 Proceed, Wrk 0 Proceed, Wrk 0 Proceed]"
  let ?c = "\<lparr>m_state = Exited, m_thread = Some 0, workers = [W_returned], controllers = [S_join],
       crashed = False,
       trace = [Store (ByWorker 0) Exited, CasFailed 0 Sleeping, CasFailed 0 Running,
         CasFailed 0 RunRequested, Store (ByStop 0) ExitRequested, Spawn 0 0,
         Store (ByRun 0) RunRequested]\<rparr>"
  let ?c1 = "\<lparr>m_state = Exited, m_thread = None, workers = [W_returned], controllers = [C_idle],
       crashed = False,
       trace = [Join 0 0, Store (ByWorker 0) Exited, CasFailed 0 Sleeping, CasFailed 0 Running,
         CasFailed 0 RunRequested, Store (ByStop 0) ExitRequested, Spawn 0 0,
         Store (ByRun 0) RunRequested]\<rparr>"
  have r0: "run_events True [Call 0 Run, Ctl 0, Ctl 0, Ctl 0, Ctl 0, Ctl 0] (AsyncTask 1) = Some ?b"
    by (simp add: step_def sds in_stop_def AsyncTask_def)
  have i: "\<not> crashed ?b \<and> controllers ?b ! 0 = C_idle" by simp
  note first = stop_twice [OF r0, THEN conjunct1, THEN mp, OF i]
  have r: "run_events True ?es (AsyncTask 1) = Some ?c"
    by (simp add: step_def sds in_stop_def AsyncTask_def)
  have s: "step True (Ctl 0) ?c = Some ?c1"
    by (simp add: step_def sds in_stop_def)
  have j: "controllers ?c ! 0 = S_join \<and> step True (Ctl 0) ?c = Some ?c1"
    using s by simp
  have k: "joins ?c1 = 1" by (simp add: joins_def)
  note second = stop_twice [OF r, of ?c1, THEN conjunct2, THEN mp, OF j, THEN conjunct1]
  then obtain c2
    where c2: "run_events True [Call 0 Stop, Ctl 0, Ctl 0] ?c1 = Some c2" "joins c2 = joins ?c1"
    by blast
  from c2 k have "run_events True [Call 0 Stop, Ctl 0, Ctl 0] ?c1 =
      Some \<lparr>m_state = ExitRequested, m_thread = None, workers = [W_returned], controllers = [C_idle],
       crashed = False,
       trace = [Store (ByStop 0) ExitRequested, Join 0 0, Store (ByWorker 0) Exited,
         CasFailed 0 Sleeping, CasFailed 0 Running,
         CasFailed 0 RunRequested, Store (ByStop 0) ExitRequested, Spawn 0 0,
         Store (ByRun 0) RunRequested]\<rparr> \<and>
     joins \<lparr>m_state = ExitRequested, m_thread = None, workers = [W_returned], controllers = [C_idle],
       crashed = False,
       trace = [Store (ByStop 0) ExitRequested, Join 0 0, Store (ByWorker 0) Exited,
         CasFailed 0 Sleeping, CasFailed 0 Running,
         CasFailed 0 RunRequested, Store (ByStop 0) ExitRequested, Spawn 0 0,
         Store (ByRun 0) RunRequested]\<rparr> = 1"
    by (simp add: step_def sds in_stop_def)
  with first show ?thesis by (intro conjI) simp_all
qed

section \<open>Writers of the register\<close>

lemma discipline_wrk:
  assumes "threadRunLoop t ch p c = Some c'" "list_all writer_discipline (trace c)"
  shows "list_all writer_discipline (trace c') \<and>
         (m_state c' = m_state c \<or> m_state c' = Running \<or> m_state c' = Sleeping \<or> m_state c' = Exited)"
  using assms by (cases p; cases ch) (auto simp: sds split: if_splits)

lemma discipline_ctl:
  assumes "(if in_stop p then stop i p c else run a i p c) = Some c'"
    "list_all writer_discipline (trace c)"
  shows "list_all writer_discipline (trace c') \<and>
         (m_state c' = m_state c \<or> (if in_stop p then m_state c' = ExitRequested else m_state c' = RunRequested))"
  using assms by (cases p) (auto simp: sds in_stop_def split: if_splits option.splits)

lemma discipline_step:
  assumes "step a e c = Some c'" "list_all writer_discipline (trace c)"
  shows "list_all writer_discipline (trace c') \<and>
         (m_state c' = m_state c \<or> may_store (controllers c) e (m_state c'))"
proof (cases e)
  case (Call i ap)
  with assms show ?thesis by (auto simp: step_def set_cpc_def split: if_splits)
next
  case (Ctl i)
  with assms(1) have "(if in_stop (controllers c ! i) then stop i (controllers c ! i) c
              else run a i (controllers c ! i) c) = Some c'"
    by (auto simp: step_def split: if_splits)
  from discipline_ctl [OF this assms(2)] Ctl show ?thesis by auto
next
  case (Wrk t ch)
  with assms(1) have "threadRunLoop t ch (workers c ! t) c = Some c'"
    by (auto simp: step_def split: if_splits)
  from discipline_wrk [OF this assms(2)] Wrk show ?thesis by auto
qed

lemma discipline_run_events:
  "list_all writer_discipline (trace c) \<Longrightarrow> run_events a es c = Some c' \<Longrightarrow>
   list_all writer_discipline (trace c')"
  by (induction es arbitrary: c) (auto split: option.splits dest: discipline_step)

text \<open>
  C10. In every reachable configuration each store in the trace obeys the discipline
  (a worker stores Running, Sleeping or Exited, \<open>run()\<close> stores RunRequested, \<open>stop()\<close>
  stores ExitRequested), and a step that changes the register changes it to a value its
  thread may store; entering a call stores nothing.
\<close>

theorem writers_keep_discipline:
  assumes "run_events a es (AsyncTask n) = Some c"
  shows "list_all writer_discipline (trace c) \<and>
         (\<forall>e c'. step a e c = Some c' \<and> m_state c' \<noteq> m_state c \<longrightarrow>
            may_store (controllers c) e (m_state c'))"
proof -
  have "list_all writer_discipline (trace (AsyncTask n))" by (simp add: AsyncTask_def)
  then have d: "list_all writer_discipline (trace c)" using assms by (rule discipline_run_events)
  with discipline_step show ?thesis by blast
qed

theorem writers_keep_discipline_witness:
  "list_all writer_discipline [Spawn 0 0, Store (ByRun 0) RunRequested] \<and>
   may_store [C_idle] (Wrk 0 Proceed) Running"
proof -
  let ?c = "\<lparr>m_state = RunRequested, m_thread = Some 0, workers = [W_cas1],
      controllers = [C_idle], crashed = False,
      trace = [Spawn 0 0, Store (ByRun 0) RunRequested]\<rparr>"
  let ?c' = "\<lparr>m_state = Running, m_thread = Some 0, workers = [W_call],
      controllers = [C_idle], crashed = False,
      trace = [Invoke 0, Store (ByWorker 0) Running, Spawn 0 0, Store (ByRun 0) RunRequested]\<rparr>"
  have r: "run_events True [Call 0 Run, Ctl 0, Ctl 0, Ctl 0, Ctl 0, Ctl 0] (AsyncTask 1) = Some ?c"
    by (simp add: step_def sds in_stop_def AsyncTask_def)
  have s: "step True (Wrk 0 Proceed) ?c = Some ?c'"
    by (simp add: step_def sds)
  from writers_keep_discipline [OF r] s show ?thesis by fastforce
qed

section \<open>Stopping an instance that has no worker\<close>

text \<open>
  C3. \<open>stop()\<close> on a freshly constructed instance returns with the register at
  ExitRequested, not Exited: nothing is left to take it to Exited.
\<close>

theorem stop_without_thread_leaves_ExitRequested:
  "run_events a [Call 0 Stop, Ctl 0, Ctl 0] (AsyncTask 1) =
     Some \<lparr>m_state = ExitRequested, m_thread = None, workers = [],
       controllers = [C_idle], crashed = False, trace = [Store (ByStop 0) ExitRequested]\<rparr>"
  by (simp add: step_def sds in_stop_def AsyncTask_def)

text \<open>
  C8. With checked assertions, \<open>run()\<close> after \<open>stop()\<close> on a fresh instance exchanges
  ExitRequested out of the register and fails \<open>BASSERT(oldState == Exited)\<close>, in a purely
  sequential use.
\<close>

theorem run_after_stop_fails_assertion:
  "run_events True [Call 0 Stop, Ctl 0, Ctl 0, Call 0 Run, Ctl 0, Ctl 0, Ctl 0] (AsyncTask 1) =
     Some \<lparr>m_state = RunRequested, m_thread = None, workers = [],
       controllers = [R_assert ExitRequested], crashed = True,
       trace = [AssertFailed 0, Store (ByRun 0) RunRequested, Store (ByStop 0) ExitRequested]\<rparr>"
  by (simp add: step_def sds in_stop_def AsyncTask_def)

end
